theory Spec2Isabelle
  imports Main
begin

section \<open>The Receiver of ib.opt.receiver\<close>

text \<open>
  A shallow embedding of \<^verbatim>\<open>src/ib/opt/receiver.py\<close> (Python 2): the table of
  listeners, \<^verbatim>\<open>register\<close>, \<^verbatim>\<open>unregister\<close>, \<^verbatim>\<open>key\<close>, \<^verbatim>\<open>dispatch\<close>, the three
  \<^verbatim>\<open>error\<close> methods and the methods made by \<^verbatim>\<open>messageMethod\<close>.

  Scope of the model. A listener is a callable that returns or raises and does not call
  back into the Receiver while it runs; listeners are compared by identity, as Python
  compares functions. The lists stored under different keys of
  \<^verbatim>\<open>self.listeners\<close> are different list objects (as \<^verbatim>\<open>setdefault(key, [])\<close> makes them).
  Writing to \<^verbatim>\<open>sys.stdout\<close> and formatting the report do not raise.
\<close>

subsection \<open>Values, exceptions, messages\<close>

text \<open>
  The exceptions that occur. \<^verbatim>\<open>SystemExit\<close> and \<^verbatim>\<open>KeyboardInterrupt\<close> derive from
  \<^verbatim>\<open>BaseException\<close> only, so \<^verbatim>\<open>except (Exception, )\<close> does not catch them.
\<close>

datatype exn =
  KeyError | AttributeError | TypeError | AssertionError | RuntimeError
  | SystemExit | KeyboardInterrupt

fun isinstance_Exception :: "exn \<Rightarrow> bool" where
  "isinstance_Exception SystemExit = False"
| "isinstance_Exception KeyboardInterrupt = False"
| "isinstance_Exception _ = True"

datatype pyval = PNone | PInt int | PStr string | PTuple "pyval list"

type_synonym mapping = "string \<rightharpoonup> pyval"

text \<open>A message value: the name of its type and its fields.\<close>

datatype message = MessageValue (msg_type: string) (msg_fields: mapping)

text \<open>
  A message type, as far as the Receiver uses one: its \<^verbatim>\<open>__name__\<close>, and what calling it
  with keyword arguments does. Whether the call raises is the type's own business and is
  taken as a parameter, \<open>ctor_raises\<close>.
\<close>

record mtype =
  type_name :: string
  ctor_raises :: "mapping \<Rightarrow> exn option"

text \<open>
  Modelled from the spec: the message constructor \<^verbatim>\<open>mtype(**mapping)\<close> of
  \<^verbatim>\<open>ib.opt.message\<close>, which is not part of the sources at hand. By the spec a message value
  is a record of field name to value, tagged with the identity of its type, that holds the
  field values supplied; extra or missing fields are the constructor's concern, so the
  call may raise.
\<close>

definition construct :: "mtype \<Rightarrow> mapping \<Rightarrow> exn + message" where
  "construct mt mp =
     (case ctor_raises mt mp of
        Some e \<Rightarrow> Inl e
      | None \<Rightarrow> Inr (MessageValue (type_name mt) mp))"

text \<open>
  The objects handed to \<^verbatim>\<open>key\<close>: a message type, a string, or any other object, given by
  its \<^verbatim>\<open>__name__\<close> attribute (if it has one) and its \<^verbatim>\<open>str()\<close>.
\<close>

datatype pyobj = TypeObj mtype | StrObj string | OtherObj "string option" string

subsection \<open>The state\<close>

type_synonym listener = nat

text \<open>
  What calling a listener with a message does: \<open>None\<close> when it returns, \<open>Some e\<close> when
  it raises \<open>e\<close>.
\<close>

type_synonym behaviour = "listener \<Rightarrow> message \<Rightarrow> exn option"

text \<open>
  \<open>listeners\<close> and \<open>types\<close> are the two attributes of a Receiver. \<open>calls\<close> records
  every invocation \<^verbatim>\<open>listener(message)\<close> in order, and \<open>stdout\<close> every report printed
  (the handler and the method name).
\<close>

record receiver =
  listeners :: "string \<rightharpoonup> listener list"
  types :: "string \<rightharpoonup> mtype"
  calls :: "(listener \<times> message) list"
  stdout :: "(listener \<times> string) list"

subsection \<open>key, register, unregister\<close>

text \<open>
  \<^verbatim>\<open>try: return obj.__name__  except (AttributeError, ): return str(obj)\<close>.
  A type has a \<^verbatim>\<open>__name__\<close>; a string has none, and \<^verbatim>\<open>str\<close> of a string is the string.
\<close>

fun key :: "pyobj \<Rightarrow> string" where
  "key (TypeObj mt) = type_name mt"
| "key (StrObj s) = s"
| "key (OtherObj name_attr str_repr) =
     (case name_attr of Some n \<Rightarrow> n | None \<Rightarrow> str_repr)"

text \<open>\<^verbatim>\<open>self.listeners.setdefault(key, [])\<close>, then append if absent.\<close>

fun register :: "receiver \<Rightarrow> listener \<Rightarrow> pyobj list \<Rightarrow> receiver" where
  "register s l [] = s"
| "register s l (t # ts) =
     (let k = key t;
          ls = (case listeners s k of None \<Rightarrow> [] | Some ls \<Rightarrow> ls);
          ls' = (if l \<notin> set ls then ls @ [l] else ls)
      in register (s\<lparr>listeners := (listeners s)(k \<mapsto> ls')\<rparr>) l ts)"

text \<open>\<^verbatim>\<open>list.remove\<close> deletes the first equal element: \<open>remove1\<close>.\<close>

fun unregister :: "receiver \<Rightarrow> listener \<Rightarrow> pyobj list \<Rightarrow> receiver" where
  "unregister s l [] = s"
| "unregister s l (t # ts) =
     (case listeners s (key t) of
        None \<Rightarrow> unregister s l ts
      | Some ls \<Rightarrow>
          if l \<in> set ls
          then unregister (s\<lparr>listeners := (listeners s)(key t \<mapsto> remove1 l ls)\<rparr>) l ts
          else unregister s l ts)"

subsection \<open>dispatch\<close>

definition report :: "receiver \<Rightarrow> listener \<Rightarrow> string \<Rightarrow> receiver" where
  "report s l name = s\<lparr>stdout := stdout s @ [(l, name)]\<rparr>"

definition invoke :: "receiver \<Rightarrow> listener \<Rightarrow> message \<Rightarrow> receiver" where
  "invoke s l m = s\<lparr>calls := calls s @ [(l, m)]\<rparr>"

text \<open>
  The loop \<^verbatim>\<open>for listener in listeners:\<close> of \<^verbatim>\<open>dispatch\<close>. The list iterated is the
  list object stored in the table under \<^verbatim>\<open>key(mtype)\<close>, the one \<^verbatim>\<open>unregister\<close> removes
  from, and a Python list iterator keeps an index into the live list: each round it
  stops if the index has reached the current length, and otherwise takes the element
  at the index and advances it. So the loop reads the list from the state at every round.
  The result is the exception that leaves \<^verbatim>\<open>dispatch\<close>, if any, and the state then.
\<close>

function fan_out ::
  "behaviour \<Rightarrow> string \<Rightarrow> mtype \<Rightarrow> message \<Rightarrow> nat \<Rightarrow> receiver \<Rightarrow> exn option \<times> receiver"
where
  "fan_out run name mt m i s =
     (case listeners s (key (TypeObj mt)) of
        None \<Rightarrow> (None, s)
      | Some ls \<Rightarrow>
          if i < length ls then
            (let l = ls ! i; s1 = invoke s l m in
             case run l m of
               None \<Rightarrow> fan_out run name mt m (i + 1) s1
             | Some e \<Rightarrow>
                 if isinstance_Exception e
                 then fan_out run name mt m (i + 1)
                        (report (unregister s1 l [TypeObj mt]) l name)
                 else (Some e, s1))
          else (None, s))"
  by pat_completeness auto
termination
proof (relation "measure (\<lambda>(run, name, mt, m, i, s).
         case listeners s (key (TypeObj mt)) of None \<Rightarrow> 0 | Some ls \<Rightarrow> length ls - i)")
  show "wf (measure (\<lambda>(run, name, mt, m, i, s).
         case listeners s (key (TypeObj mt)) of None \<Rightarrow> 0 | Some ls \<Rightarrow> length ls - i))"
    by simp
next
  fix run :: behaviour and name :: string and mt :: mtype and m :: message
    and i :: nat and s :: receiver and ls l s1
  assume "listeners s (key (TypeObj mt)) = Some ls" "i < length ls"
    "l = ls ! i" "s1 = invoke s l m" "run l m = None"
  then show "((run, name, mt, m, i + 1, s1), (run, name, mt, m, i, s))
      \<in> measure (\<lambda>(run, name, mt, m, i, s).
         case listeners s (key (TypeObj mt)) of None \<Rightarrow> 0 | Some ls \<Rightarrow> length ls - i)"
    by (simp add: invoke_def)
next
  fix run :: behaviour and name :: string and mt :: mtype and m :: message
    and i :: nat and s :: receiver and ls l s1 e
  assume a: "listeners s (key (TypeObj mt)) = Some ls" "i < length ls"
    "l = ls ! i" "s1 = invoke s l m" "run l m = Some e" "isinstance_Exception e"
  then have "listeners s1 (key (TypeObj mt)) = Some ls"
    by (simp add: invoke_def)
  then have "listeners (unregister s1 l [TypeObj mt]) (key (TypeObj mt)) = Some (remove1 l ls)"
    by (simp add: remove1_idem)
  then have "listeners (report (unregister s1 l [TypeObj mt]) l name) (key (TypeObj mt))
      = Some (remove1 l ls)"
    by (simp add: report_def)
  with a show "((run, name, mt, m, i + 1, report (unregister s1 l [TypeObj mt]) l name),
       (run, name, mt, m, i, s))
      \<in> measure (\<lambda>(run, name, mt, m, i, s).
         case listeners s (key (TypeObj mt)) of None \<Rightarrow> 0 | Some ls \<Rightarrow> length ls - i)"
    by (simp add: length_remove1)
qed

text \<open>
  \<^verbatim>\<open>dispatch\<close>: the two lookups are inside \<^verbatim>\<open>try\<close> and a \<^verbatim>\<open>KeyError\<close> from either ends the
  call silently; the construction of the message and the loop are in the \<^verbatim>\<open>else\<close>
  branch, outside the \<^verbatim>\<open>try\<close>.
\<close>

definition dispatch :: "behaviour \<Rightarrow> receiver \<Rightarrow> string \<Rightarrow> mapping \<Rightarrow> exn option \<times> receiver" where
  "dispatch run s name mp =
     (case types s name of
        None \<Rightarrow> (None, s)
      | Some mt \<Rightarrow>
          (case listeners s (key (TypeObj mt)) of
             None \<Rightarrow> (None, s)
           | Some ls \<Rightarrow>
               (case construct mt mp of
                  Inl e \<Rightarrow> (Some e, s)
                | Inr m \<Rightarrow> fan_out run name mt m 0 s)))"

subsection \<open>The methods made by messageMethod\<close>

text \<open>\<^verbatim>\<open>dict(pairs)\<close>: the pairs are stored from left to right, a later pair overwriting.\<close>

definition dict :: "(string \<times> pyval) list \<Rightarrow> mapping" where
  "dict kvs = foldl (\<lambda>d (k, v). d(k \<mapsto> v)) Map.empty kvs"

text \<open>
  \<^verbatim>\<open>inner(self, *args)\<close> of \<^verbatim>\<open>messageMethod(name, argnames)\<close>; \<^verbatim>\<open>zip\<close> stops at the
  shorter of its two arguments.
\<close>

definition messageMethod ::
  "string \<Rightarrow> string list \<Rightarrow> behaviour \<Rightarrow> receiver \<Rightarrow> pyval list \<Rightarrow> exn option \<times> receiver"
where
  "messageMethod name argnames run s args =
     (let params = dict (zip argnames args) in dispatch run s name params)"

subsection \<open>The error methods\<close>

text \<open>\<^verbatim>\<open>error(self, e)\<close>, \<^verbatim>\<open>error_0(self, strval)\<close> and \<^verbatim>\<open>error_1(self, id, errorCode, errorMsg)\<close>.\<close>

definition error :: "behaviour \<Rightarrow> receiver \<Rightarrow> pyval \<Rightarrow> exn option \<times> receiver" where
  "error run s e = dispatch run s ''error'' (dict [(''errorMsg'', e)])"

definition error_0 :: "behaviour \<Rightarrow> receiver \<Rightarrow> string \<Rightarrow> exn option \<times> receiver" where
  "error_0 run s strval = dispatch run s ''error'' (dict [(''errorMsg'', PStr strval)])"

definition error_1 ::
  "behaviour \<Rightarrow> receiver \<Rightarrow> int \<Rightarrow> int \<Rightarrow> string \<Rightarrow> exn option \<times> receiver"
where
  "error_1 run s ident errorCode errorMsg =
     (let params = dict [(''id'', PInt ident), (''errorCode'', PInt errorCode),
                         (''errorMsg'', PStr errorMsg)]
      in dispatch run s ''error'' params)"

text \<open>
  Modelled from the spec: the decorator \<^verbatim>\<open>overloaded\<close> of \<^verbatim>\<open>ib.lib.overloading\<close>, which
  picks one of the three methods from the arguments of a call \<^verbatim>\<open>receiver.error(*args)\<close>
  and is not part of the sources at hand. By the spec the choice is by argument count and
  type in a fixed order: three arguments (integer, integer, string) first, then a single
  string, then the single-value method for anything else, which for an argument
  combination of no recognised shape receives the whole argument tuple as one value.
\<close>

fun error_overloaded :: "behaviour \<Rightarrow> receiver \<Rightarrow> pyval list \<Rightarrow> exn option \<times> receiver" where
  "error_overloaded run s [PInt ident, PInt errorCode, PStr errorMsg] =
     error_1 run s ident errorCode errorMsg"
| "error_overloaded run s [PStr strval] = error_0 run s strval"
| "error_overloaded run s [e] = error run s e"
| "error_overloaded run s args = error run s (PTuple args)"

text \<open>The three recognised shapes of the arguments of \<^verbatim>\<open>error\<close>.\<close>

fun recognised :: "pyval list \<Rightarrow> bool" where
  "recognised [PInt ident, PInt errorCode, PStr errorMsg] = True"
| "recognised [e] = True"
| "recognised args = False"

subsection \<open>Observing the invocations\<close>

text \<open>
  The invocations a call added to the history, and the messages one listener received
  among some invocations.
\<close>

definition new_calls :: "receiver \<Rightarrow> receiver \<Rightarrow> (listener \<times> message) list" where
  "new_calls s s' = drop (length (calls s)) (calls s')"

definition invocations :: "listener \<Rightarrow> (listener \<times> message) list \<Rightarrow> message list" where
  "invocations l cs = map snd (filter (\<lambda>c. fst c = l) cs)"

subsection \<open>Example inputs\<close>

text \<open>
  Concrete inputs on which the definitions are evaluated below: two message types whose
  constructor refuses a field name that is none of its own, a Receiver that knows them
  under their method names, and three listeners 1, 2 and 3.
\<close>

definition strict_ctor :: "string list \<Rightarrow> mapping \<Rightarrow> exn option" where
  "strict_ctor slots mp = (if dom mp \<subseteq> set slots then None else Some AssertionError)"

definition Error_type :: mtype where
  "Error_type =
     \<lparr>type_name = ''Error'', ctor_raises = strict_ctor [''id'', ''errorCode'', ''errorMsg'']\<rparr>"

definition TickSize_type :: mtype where
  "TickSize_type =
     \<lparr>type_name = ''TickSize'', ctor_raises = strict_ctor [''tickerId'', ''field'', ''size'']\<rparr>"

definition fresh :: receiver where
  "fresh = \<lparr>listeners = Map.empty,
             types = [''error'' \<mapsto> Error_type, ''tickSize'' \<mapsto> TickSize_type],
             calls = [], stdout = []\<rparr>"

text \<open>Listener 1 for both types, then 2 and 3 for errors.\<close>

definition subscribed :: receiver where
  "subscribed =
     register (register (register fresh 1 [TypeObj Error_type, TypeObj TickSize_type])
                 2 [StrObj ''Error''])
       3 [TypeObj Error_type]"

text \<open>Listener 3 for errors, unregistered again: the list is there and is empty.\<close>

definition emptied :: receiver where
  "emptied = unregister (register fresh 3 [TypeObj Error_type]) 3 [TypeObj Error_type]"

definition well_behaved :: behaviour where
  "well_behaved l m = None"

definition first_faulty :: behaviour where
  "first_faulty l m = (if l = 1 then Some RuntimeError else None)"

definition first_interrupted :: behaviour where
  "first_interrupted l m = (if l = 1 then Some KeyboardInterrupt else None)"

section \<open>Properties\<close>

subsection \<open>The loop of dispatch, round by round\<close>

declare fan_out.simps [simp del]

lemma unregister_one:
  "unregister s l [t] =
     (case listeners s (key t) of
        None \<Rightarrow> s
      | Some ls \<Rightarrow> s\<lparr>listeners := (listeners s)(key t \<mapsto> remove1 l ls)\<rparr>)"
  by (cases "listeners s (key t)") (auto simp: remove1_idem map_upd_triv)

lemma caught_state:
  "listeners s (type_name mt) = Some ls \<Longrightarrow>
   report (unregister (invoke s l m) l [TypeObj mt]) l name =
     s\<lparr>listeners := (listeners s)(type_name mt \<mapsto> remove1 l ls),
       calls := calls s @ [(l, m)], stdout := stdout s @ [(l, name)]\<rparr>"
  by (simp add: unregister_one report_def invoke_def del: unregister.simps)

lemma fan_out_none:
  "listeners s (type_name mt) = None \<Longrightarrow> fan_out run name mt m i s = (None, s)"
  by (subst fan_out.simps) (simp add: Let_def)

lemma fan_out_done:
  "listeners s (type_name mt) = Some ls \<Longrightarrow> \<not> i < length ls \<Longrightarrow>
   fan_out run name mt m i s = (None, s)"
  by (subst fan_out.simps) (simp add: Let_def)

lemma fan_out_returned:
  "listeners s (type_name mt) = Some ls \<Longrightarrow> i < length ls \<Longrightarrow> run (ls ! i) m = None \<Longrightarrow>
   fan_out run name mt m i s = fan_out run name mt m (Suc i) (invoke s (ls ! i) m)"
  by (subst fan_out.simps) (simp add: Let_def)

lemma fan_out_caught:
  "listeners s (type_name mt) = Some ls \<Longrightarrow> i < length ls \<Longrightarrow> run (ls ! i) m = Some e \<Longrightarrow>
   isinstance_Exception e \<Longrightarrow>
   fan_out run name mt m i s =
     fan_out run name mt m (Suc i)
       (s\<lparr>listeners := (listeners s)(type_name mt \<mapsto> remove1 (ls ! i) ls),
          calls := calls s @ [(ls ! i, m)], stdout := stdout s @ [(ls ! i, name)]\<rparr>)"
  by (subst fan_out.simps) (simp add: caught_state Let_def del: unregister.simps)

lemma fan_out_escaped:
  "listeners s (type_name mt) = Some ls \<Longrightarrow> i < length ls \<Longrightarrow> run (ls ! i) m = Some e \<Longrightarrow>
   \<not> isinstance_Exception e \<Longrightarrow>
   fan_out run name mt m i s = (Some e, invoke s (ls ! i) m)"
  by (subst fan_out.simps) (simp add: Let_def)

lemma fan_out_rounds [case_names absent finished returned caught escaped]:
  assumes "\<And>i s. listeners s (type_name mt) = None \<Longrightarrow> P i s"
    and "\<And>i s ls. listeners s (type_name mt) = Some ls \<Longrightarrow> \<not> i < length ls \<Longrightarrow> P i s"
    and "\<And>i s ls. listeners s (type_name mt) = Some ls \<Longrightarrow> i < length ls \<Longrightarrow>
           run (ls ! i) m = None \<Longrightarrow> P (Suc i) (invoke s (ls ! i) m) \<Longrightarrow> P i s"
    and "\<And>i s ls e. listeners s (type_name mt) = Some ls \<Longrightarrow> i < length ls \<Longrightarrow>
           run (ls ! i) m = Some e \<Longrightarrow> isinstance_Exception e \<Longrightarrow>
           P (Suc i) (s\<lparr>listeners := (listeners s)(type_name mt \<mapsto> remove1 (ls ! i) ls),
                        calls := calls s @ [(ls ! i, m)],
                        stdout := stdout s @ [(ls ! i, name)]\<rparr>) \<Longrightarrow> P i s"
    and "\<And>i s ls e. listeners s (type_name mt) = Some ls \<Longrightarrow> i < length ls \<Longrightarrow>
           run (ls ! i) m = Some e \<Longrightarrow> \<not> isinstance_Exception e \<Longrightarrow> P i s"
  shows "P i s"
proof (induction "(case listeners s (type_name mt) of None \<Rightarrow> 0 | Some ls \<Rightarrow> length ls - i)"
    arbitrary: i s rule: less_induct)
  case less
  show ?case
  proof (cases "listeners s (type_name mt)")
    case None
    then show ?thesis by (rule assms(1))
  next
    case (Some ls)
    show ?thesis
    proof (cases "i < length ls")
      case False
      with Some show ?thesis by (rule assms(2))
    next
      case True
      show ?thesis
      proof (cases "run (ls ! i) m")
        case None
        have "P (Suc i) (invoke s (ls ! i) m)"
          by (rule less) (use Some True in \<open>simp add: invoke_def\<close>)
        with Some True None show ?thesis by (rule assms(3))
      next
        case raised: (Some e)
        show ?thesis
        proof (cases "isinstance_Exception e")
          case False
          with Some True raised show ?thesis by (rule assms(5))
        next
          case caught: True
          have "P (Suc i) (s\<lparr>listeners := (listeners s)(type_name mt \<mapsto> remove1 (ls ! i) ls),
                        calls := calls s @ [(ls ! i, m)],
                        stdout := stdout s @ [(ls ! i, name)]\<rparr>)"
            by (rule less) (use Some True in \<open>simp add: length_remove1\<close>)
          with Some True raised caught show ?thesis by (rule assms(4))
        qed
      qed
    qed
  qed
qed

lemma fan_out_types: "types (snd (fan_out run name mt m i s)) = types s"
proof (induct i s rule: fan_out_rounds[where mt=mt and run=run and m=m and name=name])
  case (absent i s)
  then show ?case by (simp add: fan_out_none)
next
  case (finished i s ls)
  then show ?case by (simp add: fan_out_done)
next
  case (returned i s ls)
  then show ?case by (simp add: fan_out_returned invoke_def)
next
  case (caught i s ls e)
  then show ?case by (simp add: fan_out_caught)
next
  case (escaped i s ls e)
  then show ?case by (simp add: fan_out_escaped invoke_def)
qed

lemma fan_out_other_keys:
  "k \<noteq> type_name mt \<Longrightarrow> listeners (snd (fan_out run name mt m i s)) k = listeners s k"
proof (induct i s rule: fan_out_rounds[where mt=mt and run=run and m=m and name=name])
  case (absent i s)
  then show ?case by (simp add: fan_out_none)
next
  case (finished i s ls)
  then show ?case by (simp add: fan_out_done)
next
  case (returned i s ls)
  then show ?case by (simp add: fan_out_returned invoke_def)
next
  case (caught i s ls e)
  then show ?case by (simp add: fan_out_caught)
next
  case (escaped i s ls e)
  then show ?case by (simp add: fan_out_escaped invoke_def)
qed

lemma fan_out_no_fault:
  "listeners s (type_name mt) = Some ls \<Longrightarrow> \<forall>l\<in>set (drop i ls). run l m = None \<Longrightarrow>
   fan_out run name mt m i s = (None, s\<lparr>calls := calls s @ map (\<lambda>l. (l, m)) (drop i ls)\<rparr>)"
proof (induct i s rule: fan_out_rounds[where mt=mt and run=run and m=m and name=name])
  case (absent i s)
  then show ?case by simp
next
  case (finished i s ls')
  then show ?case by (simp add: fan_out_done)
next
  case (returned i s ls')
  then have eq: "ls' = ls" by simp
  have d: "drop i ls = ls ! i # drop (Suc i) ls"
    using returned(2) eq by (simp add: Cons_nth_drop_Suc)
  from returned eq d show ?case
    by (simp add: fan_out_returned invoke_def)
next
  case (caught i s ls' e)
  then have "ls ! i \<in> set (drop i ls)"
    by (metis Cons_nth_drop_Suc list.set_intros(1) option.inject)
  with caught show ?case by auto
next
  case (escaped i s ls' e)
  then have "ls ! i \<in> set (drop i ls)"
    by (metis Cons_nth_drop_Suc list.set_intros(1) option.inject)
  with escaped show ?case by auto
qed

lemma fan_out_returns:
  "\<forall>l e. run l m = Some e \<longrightarrow> isinstance_Exception e \<Longrightarrow>
   fst (fan_out run name mt m i s) = None"
proof (induct i s rule: fan_out_rounds[where mt=mt and run=run and m=m and name=name])
  case (absent i s)
  then show ?case by (simp add: fan_out_none)
next
  case (finished i s ls)
  then show ?case by (simp add: fan_out_done)
next
  case (returned i s ls)
  then show ?case by (simp add: fan_out_returned)
next
  case (caught i s ls e)
  then show ?case by (simp add: fan_out_caught)
next
  case (escaped i s ls e)
  then show ?case by blast
qed

lemma fan_out_faulty_removed:
  "listeners s (type_name mt) = Some ls \<Longrightarrow> distinct ls \<Longrightarrow>
   \<exists>ls' cs. listeners (snd (fan_out run name mt m i s)) (type_name mt) = Some ls'
     \<and> distinct ls' \<and> set ls' \<subseteq> set ls
     \<and> calls (snd (fan_out run name mt m i s)) = calls s @ cs
     \<and> (\<forall>c\<in>set cs. snd c = m \<and> fst c \<in> set ls
           \<and> ((\<exists>e. run (fst c) m = Some e \<and> isinstance_Exception e) \<longrightarrow> fst c \<notin> set ls'))"
proof (induct i s arbitrary: ls rule: fan_out_rounds[where mt=mt and run=run and m=m and name=name])
  case (absent i s)
  then show ?case by simp
next
  case (finished i s ls0)
  then show ?case by (simp add: fan_out_done)
next
  case (returned i s ls0)
  then have eq: "ls0 = ls" by simp
  have "listeners (invoke s (ls ! i) m) (type_name mt) = Some ls"
    using returned.prems by (simp add: invoke_def)
  from returned.hyps(4)[unfolded eq, OF this returned.prems(2)]
  obtain ls' cs where h:
    "listeners (snd (fan_out run name mt m (Suc i) (invoke s (ls ! i) m))) (type_name mt) = Some ls'"
    "distinct ls'" "set ls' \<subseteq> set ls"
    "calls (snd (fan_out run name mt m (Suc i) (invoke s (ls ! i) m))) = calls (invoke s (ls ! i) m) @ cs"
    "\<forall>c\<in>set cs. snd c = m \<and> fst c \<in> set ls
           \<and> ((\<exists>e. run (fst c) m = Some e \<and> isinstance_Exception e) \<longrightarrow> fst c \<notin> set ls')"
    by blast
  have step: "fan_out run name mt m i s = fan_out run name mt m (Suc i) (invoke s (ls ! i) m)"
    using returned.hyps(1,2,3) eq by (simp add: fan_out_returned)
  have in_ls: "ls ! i \<in> set ls" using returned.hyps(2) eq by simp
  show ?case
    apply (rule exI[of _ ls'], rule exI[of _ "(ls ! i, m) # cs"])
    using h step in_ls returned.hyps(3) eq by (simp add: invoke_def)
next
  case (caught i s ls0 e)
  then have eq: "ls0 = ls" by simp
  let ?l = "ls ! i"
  let ?s2 = "s\<lparr>listeners := (listeners s)(type_name mt \<mapsto> remove1 ?l ls),
               calls := calls s @ [(?l, m)], stdout := stdout s @ [(?l, name)]\<rparr>"
  have a: "listeners ?s2 (type_name mt) = Some (remove1 ?l ls)" by simp
  have b: "distinct (remove1 ?l ls)" using caught.prems(2) by simp
  from caught.hyps(5)[unfolded eq, OF a b]
  obtain ls' cs where h:
    "listeners (snd (fan_out run name mt m (Suc i) ?s2)) (type_name mt) = Some ls'"
    "distinct ls'" "set ls' \<subseteq> set (remove1 ?l ls)"
    "calls (snd (fan_out run name mt m (Suc i) ?s2)) = calls ?s2 @ cs"
    "\<forall>c\<in>set cs. snd c = m \<and> fst c \<in> set (remove1 ?l ls)
           \<and> ((\<exists>e. run (fst c) m = Some e \<and> isinstance_Exception e) \<longrightarrow> fst c \<notin> set ls')"
    by blast
  have step: "fan_out run name mt m i s = fan_out run name mt m (Suc i) ?s2"
    using caught.hyps(1,2,3,4) eq by (simp add: fan_out_caught)
  have in_ls: "?l \<in> set ls" using caught.hyps(2) eq by simp
  have sub: "set (remove1 ?l ls) = set ls - {?l}"
    using caught.prems(2) by (rule set_remove1_eq)
  show ?case
    apply (rule exI[of _ ls'], rule exI[of _ "(?l, m) # cs"])
    using h step in_ls sub by auto
next
  case (escaped i s ls0 e)
  then have eq: "ls0 = ls" by simp
  have step: "fan_out run name mt m i s = (Some e, invoke s (ls ! i) m)"
    using escaped.hyps eq by (simp add: fan_out_escaped)
  have in_ls: "ls ! i \<in> set ls" using escaped.hyps(2) eq by simp
  show ?case
    apply (rule exI[of _ ls], rule exI[of _ "[(ls ! i, m)]"])
    using step in_ls escaped.hyps(3,4) escaped.prems eq by (simp add: invoke_def)
qed

lemma remove1_nth_distinct:
  "distinct ls \<Longrightarrow> i < length ls \<Longrightarrow> remove1 (ls ! i) ls = take i ls @ drop (Suc i) ls"
proof (induction ls arbitrary: i)
  case Nil
  then show ?case by simp
next
  case (Cons a ls)
  show ?case
  proof (cases i)
    case 0
    then show ?thesis by simp
  next
    case (Suc j)
    with Cons.prems have "ls ! j \<noteq> a" by auto
    with Cons Suc show ?thesis by simp
  qed
qed

lemma drop_Suc_remove1_nth:
  "distinct ls \<Longrightarrow> i < length ls \<Longrightarrow> drop (Suc i) (remove1 (ls ! i) ls) = drop (Suc (Suc i)) ls"
  by (simp add: remove1_nth_distinct min_def)

lemma fan_out_calls_from_index:
  "listeners s (type_name mt) = Some ls \<Longrightarrow> distinct ls \<Longrightarrow>
   \<exists>cs. calls (snd (fan_out run name mt m i s)) = calls s @ cs
     \<and> fst ` set cs \<subseteq> set (drop i ls) \<and> snd ` set cs \<subseteq> {m}"
proof (induct i s arbitrary: ls rule: fan_out_rounds[where mt=mt and run=run and m=m and name=name])
  case (absent i s)
  then show ?case by simp
next
  case (finished i s ls0)
  then show ?case by (simp add: fan_out_done)
next
  case (returned i s ls0)
  then have eq: "ls0 = ls" by simp
  have "listeners (invoke s (ls ! i) m) (type_name mt) = Some ls"
    using returned.prems by (simp add: invoke_def)
  from returned.hyps(4)[unfolded eq, OF this returned.prems(2)]
  obtain cs where h:
    "calls (snd (fan_out run name mt m (Suc i) (invoke s (ls ! i) m))) = calls (invoke s (ls ! i) m) @ cs"
    "fst ` set cs \<subseteq> set (drop (Suc i) ls)" "snd ` set cs \<subseteq> {m}"
    by blast
  have step: "fan_out run name mt m i s = fan_out run name mt m (Suc i) (invoke s (ls ! i) m)"
    using returned.hyps(1,2,3) eq by (simp add: fan_out_returned)
  have d: "drop i ls = ls ! i # drop (Suc i) ls"
    using returned.hyps(2) eq by (simp add: Cons_nth_drop_Suc)
  show ?case
    apply (rule exI[of _ "(ls ! i, m) # cs"])
    using h step d by (auto simp: invoke_def)
next
  case (caught i s ls0 e)
  then have eq: "ls0 = ls" by simp
  let ?l = "ls ! i"
  let ?s2 = "s\<lparr>listeners := (listeners s)(type_name mt \<mapsto> remove1 ?l ls),
               calls := calls s @ [(?l, m)], stdout := stdout s @ [(?l, name)]\<rparr>"
  have a: "listeners ?s2 (type_name mt) = Some (remove1 ?l ls)" by simp
  have b: "distinct (remove1 ?l ls)" using caught.prems(2) by simp
  from caught.hyps(5)[unfolded eq, OF a b]
  obtain cs where h:
    "calls (snd (fan_out run name mt m (Suc i) ?s2)) = calls ?s2 @ cs"
    "fst ` set cs \<subseteq> set (drop (Suc i) (remove1 ?l ls))" "snd ` set cs \<subseteq> {m}"
    by blast
  have step: "fan_out run name mt m i s = fan_out run name mt m (Suc i) ?s2"
    using caught.hyps(1,2,3,4) eq by (simp add: fan_out_caught)
  have d: "drop i ls = ls ! i # drop (Suc i) ls"
    using caught.hyps(2) eq by (simp add: Cons_nth_drop_Suc)
  have "set (drop (Suc i) (remove1 ?l ls)) \<subseteq> set (drop (Suc i) ls)"
    using caught.prems(2) caught.hyps(2) eq
    by (simp add: drop_Suc_remove1_nth set_drop_subset_set_drop)
  with h(2) have sub: "fst ` set cs \<subseteq> set (drop (Suc i) ls)" by blast
  show ?case
    apply (rule exI[of _ "(?l, m) # cs"])
    using h(1,3) sub step d by auto
next
  case (escaped i s ls0 e)
  then have eq: "ls0 = ls" by simp
  have step: "fan_out run name mt m i s = (Some e, invoke s (ls ! i) m)"
    using escaped.hyps eq by (simp add: fan_out_escaped)
  have d: "drop i ls = ls ! i # drop (Suc i) ls"
    using escaped.hyps(2) eq by (simp add: Cons_nth_drop_Suc)
  show ?case
    apply (rule exI[of _ "[(ls ! i, m)]"])
    using step d by (simp add: invoke_def)
qed

text \<open>
  In a list free of duplicates, the listener that follows a faulty one is not invoked by
  the rounds from the faulty one on: the removal moves it to the index just passed.
\<close>

lemma fan_out_skips_next:
  assumes "listeners s (type_name mt) = Some ls" and "distinct ls" and "Suc i < length ls"
    and "run (ls ! i) m = Some e" and "isinstance_Exception e"
  shows "\<exists>cs. calls (snd (fan_out run name mt m i s)) = calls s @ cs
           \<and> ls ! Suc i \<notin> fst ` set cs"
proof -
  let ?l = "ls ! i"
  let ?s2 = "s\<lparr>listeners := (listeners s)(type_name mt \<mapsto> remove1 ?l ls),
               calls := calls s @ [(?l, m)], stdout := stdout s @ [(?l, name)]\<rparr>"
  have i: "i < length ls" using assms(3) by simp
  have step: "fan_out run name mt m i s = fan_out run name mt m (Suc i) ?s2"
    using assms(1) i assms(4,5) by (simp add: fan_out_caught)
  have a: "listeners ?s2 (type_name mt) = Some (remove1 ?l ls)" by simp
  have b: "distinct (remove1 ?l ls)" using assms(2) by simp
  from fan_out_calls_from_index[OF a b, of run name m "Suc i"]
  obtain cs where h:
    "calls (snd (fan_out run name mt m (Suc i) ?s2)) = calls ?s2 @ cs"
    "fst ` set cs \<subseteq> set (drop (Suc i) (remove1 ?l ls))"
    by blast
  have later: "fst ` set cs \<subseteq> set (drop (Suc (Suc i)) ls)"
    using h(2) assms(2) i by (simp add: drop_Suc_remove1_nth)
  have "ls = take (Suc i) ls @ ls ! Suc i # drop (Suc (Suc i)) ls"
    using assms(3) by (rule id_take_nth_drop)
  then have "distinct (take (Suc i) ls @ ls ! Suc i # drop (Suc (Suc i)) ls)"
    using assms(2) by simp
  then have n1: "ls ! Suc i \<notin> set (drop (Suc (Suc i)) ls)" by simp
  have n2: "ls ! Suc i \<noteq> ls ! i"
    using assms(2,3) by (simp add: nth_eq_iff_index_eq)
  show ?thesis
    apply (rule exI[of _ "(?l, m) # cs"])
    using h(1) step later n1 n2 by auto
qed

subsection \<open>register and unregister\<close>






lemma register_distinct:
  "\<forall>k ls. listeners s k = Some ls \<longrightarrow> distinct ls \<Longrightarrow>
   listeners (register s l ts) k = Some ls \<Longrightarrow> distinct ls"
proof (induction ts arbitrary: s)
  case Nil
  then show ?case by simp
next
  case (Cons t ts)
  let ?s1 = "s\<lparr>listeners := (listeners s)(key t \<mapsto>
      (let ls = (case listeners s (key t) of None \<Rightarrow> [] | Some ls \<Rightarrow> ls)
       in if l \<notin> set ls then ls @ [l] else ls))\<rparr>"
  have "\<forall>k ls. listeners ?s1 k = Some ls \<longrightarrow> distinct ls"
    using Cons.prems(1) by (auto simp: Let_def split: option.splits)
  from Cons.IH[OF this] Cons.prems(2) show ?case by (simp add: Let_def)
qed

lemma unregister_distinct:
  "\<forall>k ls. listeners s k = Some ls \<longrightarrow> distinct ls \<Longrightarrow>
   listeners (unregister s l ts) k = Some ls \<Longrightarrow> distinct ls"
proof (induction ts arbitrary: s)
  case Nil
  then show ?case by simp
next
  case (Cons t ts)
  show ?case
  proof (cases "listeners s (key t)")
    case None
    with Cons show ?thesis by simp
  next
    case (Some ls0)
    let ?s1 = "s\<lparr>listeners := (listeners s)(key t \<mapsto> remove1 l ls0)\<rparr>"
    have "\<forall>k ls. listeners ?s1 k = Some ls \<longrightarrow> distinct ls"
      using Cons.prems(1) Some by auto
    from Cons.IH[OF this] Cons.IH[OF Cons.prems(1)] Cons.prems(2) Some show ?thesis
      by (simp split: if_splits)
  qed
qed

subsection \<open>dict and zip\<close>

lemma dict_map_of: "foldl (\<lambda>d (k, v). d(k \<mapsto> v)) d0 kvs = d0 ++ map_of (rev kvs)"
  by (induction kvs arbitrary: d0) (auto simp: map_add_upd_left)

lemma dict_zip: "dict (zip ks vs) = Map.empty(ks [\<mapsto>] vs)"
  by (simp add: dict_def dict_map_of map_upds_def)

lemma dom_dict_zip: "dom (dict (zip ks vs)) = set (take (length vs) ks)"
  by (simp add: dict_zip)

lemma zip_take_right: "zip ks (take (length ks) vs) = zip ks vs"
proof (induction ks arbitrary: vs)
  case Nil
  then show ?case by simp
next
  case (Cons k ks)
  then show ?case by (cases vs) simp_all
qed

lemma dict_zip_take: "dict (zip ks vs) = dict (zip ks (take (length ks) vs))"
  by (simp add: zip_take_right)

lemma map_upds_nth:
  "distinct ks \<Longrightarrow> i < length ks \<Longrightarrow> i < length vs \<Longrightarrow> (d(ks [\<mapsto>] vs)) (ks ! i) = Some (vs ! i)"
proof (induction ks arbitrary: vs i d)
  case Nil
  then show ?case by simp
next
  case (Cons k ks)
  from Cons.prems(3) obtain v vs' where vs: "vs = v # vs'" by (cases vs) auto
  show ?case
  proof (cases i)
    case 0
    with Cons.prems vs show ?thesis by (simp add: map_upds_apply_nontin)
  next
    case (Suc j)
    with Cons.prems vs have "distinct ks" "j < length ks" "j < length vs'" by auto
    from Cons.IH[OF this] Suc vs show ?thesis by simp
  qed
qed

lemma dict_zip_nth:
  "distinct ks \<Longrightarrow> i < length ks \<Longrightarrow> i < length vs \<Longrightarrow> dict (zip ks vs) (ks ! i) = Some (vs ! i)"
  by (simp add: dict_zip map_upds_nth)

lemma dict_zip_absent:
  assumes "distinct ks" and "length vs \<le> i" and "i < length ks"
  shows "dict (zip ks vs) (ks ! i) = None"
proof -
  have "ks ! i \<notin> set (take (length vs) ks)"
  proof
    assume "ks ! i \<in> set (take (length vs) ks)"
    then obtain j where j: "j < length (take (length vs) ks)"
      "take (length vs) ks ! j = ks ! i"
      unfolding in_set_conv_nth by blast
    then have "j < length vs" "j < length ks" "ks ! j = ks ! i" by simp_all
    with assms(1,3) have "j = i" by (simp add: nth_eq_iff_index_eq)
    with \<open>j < length vs\<close> assms(2) show False by simp
  qed
  then have "ks ! i \<notin> dom (dict (zip ks vs))" by (simp add: dom_dict_zip)
  then show ?thesis by (simp add: domIff)
qed

subsection \<open>dispatch as a whole\<close>

lemma dispatch_unknown: "types s name = None \<Longrightarrow> dispatch run s name mp = (None, s)"
  by (simp add: dispatch_def)

lemma dispatch_no_entry:
  "types s name = Some mt \<Longrightarrow> listeners s (key (TypeObj mt)) = None \<Longrightarrow>
   dispatch run s name mp = (None, s)"
  by (simp add: dispatch_def)

lemma dispatch_ctor_raises:
  "types s name = Some mt \<Longrightarrow> listeners s (key (TypeObj mt)) = Some ls \<Longrightarrow>
   ctor_raises mt mp = Some e \<Longrightarrow> dispatch run s name mp = (Some e, s)"
  by (simp add: dispatch_def construct_def)

lemma dispatch_fan_out:
  "types s name = Some mt \<Longrightarrow> listeners s (key (TypeObj mt)) = Some ls \<Longrightarrow>
   ctor_raises mt mp = None \<Longrightarrow>
   dispatch run s name mp = fan_out run name mt (MessageValue (type_name mt) mp) 0 s"
  by (simp add: dispatch_def construct_def)

lemma construct_Inr:
  "construct mt mp = Inr m \<longleftrightarrow> ctor_raises mt mp = None \<and> m = MessageValue (type_name mt) mp"
  by (auto simp: construct_def split: option.splits)

lemma dispatch_normal:
  assumes "\<forall>mt. types s name = Some mt \<longrightarrow> ctor_raises mt mp = None"
    and "\<forall>l m e. run l m = Some e \<longrightarrow> isinstance_Exception e"
  shows "fst (dispatch run s name mp) = None"
proof (cases "types s name")
  case None
  then show ?thesis by (simp add: dispatch_unknown)
next
  case (Some mt)
  show ?thesis
  proof (cases "listeners s (key (TypeObj mt))")
    case None
    with Some show ?thesis by (simp add: dispatch_no_entry)
  next
    case entry: (Some ls)
    from assms(1) Some have "ctor_raises mt mp = None" by simp
    with Some entry have "dispatch run s name mp
        = fan_out run name mt (MessageValue (type_name mt) mp) 0 s"
      by (rule dispatch_fan_out)
    moreover from assms(2)
    have "\<forall>l e. run l (MessageValue (type_name mt) mp) = Some e \<longrightarrow> isinstance_Exception e"
      by blast
    ultimately show ?thesis by (simp add: fan_out_returns)
  qed
qed

lemma dispatch_fan_out_all:
  assumes "types s name = Some mt"
    and "listeners s (key (TypeObj mt)) = Some ls"
    and "construct mt mp = Inr m"
    and "\<forall>l\<in>set ls. run l m = None"
  shows "dispatch run s name mp = (None, s\<lparr>calls := calls s @ map (\<lambda>l. (l, m)) ls\<rparr>)"
proof -
  from assms(3) have c: "ctor_raises mt mp = None" and m: "m = MessageValue (type_name mt) mp"
    by (simp_all add: construct_Inr)
  have "dispatch run s name mp = fan_out run name mt m 0 s"
    using assms(1,2) c unfolding m by (rule dispatch_fan_out)
  moreover have "fan_out run name mt m 0 s
      = (None, s\<lparr>calls := calls s @ map (\<lambda>l. (l, m)) (drop 0 ls)\<rparr>)"
    using assms(2,4) by (intro fan_out_no_fault) simp_all
  ultimately show ?thesis by simp
qed

lemma invocations_distinct:
  "distinct ls \<Longrightarrow> l \<in> set ls \<Longrightarrow> invocations l (map (\<lambda>l. (l, m)) ls) = [m]"
proof (induction ls)
  case Nil
  then show ?case by simp
next
  case (Cons a ls)
  have none: "x \<notin> set ls \<Longrightarrow> invocations x (map (\<lambda>l. (l, m)) ls) = []" for x
    by (induction ls) (auto simp: invocations_def)
  from Cons none show ?case by (auto simp: invocations_def)
qed

lemma unrecognised_shape:
  "\<not> recognised args \<Longrightarrow> error_overloaded run s args = error run s (PTuple args)"
  by (cases "(run, s, args)" rule: error_overloaded.cases) simp_all

subsection \<open>The example inputs, evaluated\<close>

lemma fresh_simps:
  "listeners fresh k = None" "types fresh ''error'' = Some Error_type"
  "types fresh ''tickSize'' = Some TickSize_type" "calls fresh = []" "stdout fresh = []"
  by (simp_all add: fresh_def)

lemma subscribed_eq:
  "subscribed = fresh\<lparr>listeners := [''Error'' \<mapsto> [1, 2, 3], ''TickSize'' \<mapsto> [1]]\<rparr>"
  by (simp add: subscribed_def fresh_def Error_type_def TickSize_type_def Let_def fun_upd_twist)

lemma emptied_eq: "emptied = fresh\<lparr>listeners := [''Error'' \<mapsto> []]\<rparr>"
  by (simp add: emptied_def fresh_def Error_type_def Let_def)

lemma subscribed_simps:
  "listeners subscribed ''Error'' = Some [1, 2, 3]"
  "listeners subscribed ''TickSize'' = Some [1]"
  "types subscribed ''error'' = Some Error_type"
  "types subscribed ''tickSize'' = Some TickSize_type"
  "calls subscribed = []" "stdout subscribed = []"
  by (simp_all add: subscribed_eq fresh_simps)

lemma Error_type_simps:
  "type_name Error_type = ''Error''"
  "ctor_raises Error_type [''errorMsg'' \<mapsto> v] = None"
  "ctor_raises Error_type [''bogus'' \<mapsto> v] = Some AssertionError"
  by (simp_all add: Error_type_def strict_ctor_def)

lemma dispatch_first_faulty:
  "dispatch first_faulty subscribed ''error'' [''errorMsg'' \<mapsto> v] =
     (None, subscribed\<lparr>listeners := (listeners subscribed)(''Error'' \<mapsto> [2, 3]),
        calls := [(1, MessageValue ''Error'' [''errorMsg'' \<mapsto> v]),
                  (3, MessageValue ''Error'' [''errorMsg'' \<mapsto> v])],
        stdout := [(1, ''error'')]\<rparr>)"
  by (simp add: dispatch_def construct_def fan_out.simps subscribed_eq fresh_def Error_type_def
      strict_ctor_def first_faulty_def invoke_def report_def Let_def)

lemma dispatch_first_interrupted:
  "dispatch first_interrupted subscribed ''error'' [''errorMsg'' \<mapsto> v] =
     (Some KeyboardInterrupt,
      subscribed\<lparr>calls := [(1, MessageValue ''Error'' [''errorMsg'' \<mapsto> v])]\<rparr>)"
  by (simp add: dispatch_def construct_def fan_out.simps subscribed_eq fresh_def Error_type_def
      strict_ctor_def first_interrupted_def invoke_def report_def Let_def)


section \<open>Properties of the specification\<close>

subsection \<open>Fault isolation\<close>

text \<open>
  C1. If a listener raises an exception during \<^verbatim>\<open>dispatch\<close> for a type, the call returns
  normally and every other listener registered for the type at the start of the call is
  still invoked. The code does not do the second part. With the listeners 1, 2 and 3
  registered for errors and listener 1 raising \<^verbatim>\<open>RuntimeError\<close>, the call returns
  normally, but the only invocations are those of 1 and 3: removing 1 from the list being
  iterated moves 2 to the place the iterator has already passed, and listener 2, still
  registered afterwards, never receives the message.
\<close>

theorem dispatch_skips_listener_after_faulty:
  "listeners subscribed ''Error'' = Some [1, 2, 3]
   \<and> first_faulty 1 (MessageValue ''Error'' [''errorMsg'' \<mapsto> PStr ''bad feed'']) = Some RuntimeError
   \<and> fst (dispatch first_faulty subscribed ''error'' [''errorMsg'' \<mapsto> PStr ''bad feed'']) = None
   \<and> new_calls subscribed
        (snd (dispatch first_faulty subscribed ''error'' [''errorMsg'' \<mapsto> PStr ''bad feed'']))
      = [(1, MessageValue ''Error'' [''errorMsg'' \<mapsto> PStr ''bad feed'']),
         (3, MessageValue ''Error'' [''errorMsg'' \<mapsto> PStr ''bad feed''])]
   \<and> invocations 2 (new_calls subscribed
        (snd (dispatch first_faulty subscribed ''error'' [''errorMsg'' \<mapsto> PStr ''bad feed''])))
      = []
   \<and> listeners (snd (dispatch first_faulty subscribed ''error'' [''errorMsg'' \<mapsto> PStr ''bad feed'']))
        ''Error'' = Some [2, 3]"
  by (simp add: dispatch_first_faulty subscribed_simps first_faulty_def new_calls_def
      invocations_def)

text \<open>
  C2, as amended. \<^verbatim>\<open>dispatch\<close> returns normally whenever the constructor of the type
  looked up does not raise on the mapping and no listener raises anything outside the
  \<^verbatim>\<open>Exception\<close> hierarchy. A \<^verbatim>\<open>KeyError\<close> of either lookup and every \<^verbatim>\<open>Exception\<close> of a
  listener stay inside.
\<close>

theorem dispatch_returns_normally:
  assumes "\<forall>mt. types s name = Some mt \<longrightarrow> ctor_raises mt mp = None"
    and "\<forall>l m e. run l m = Some e \<longrightarrow> isinstance_Exception e"
  shows "fst (dispatch run s name mp) = None"
  using assms by (rule dispatch_normal)

theorem dispatch_returns_normally_witness:
  "fst (dispatch first_faulty subscribed ''error'' [''errorMsg'' \<mapsto> PInt 42]) = None"
proof -
  have a: "\<forall>mt. types subscribed ''error'' = Some mt
      \<longrightarrow> ctor_raises mt [''errorMsg'' \<mapsto> PInt 42] = None"
    by (simp add: subscribed_simps Error_type_simps)
  have b: "\<forall>l m e. first_faulty l m = Some e \<longrightarrow> isinstance_Exception e"
    by (simp add: first_faulty_def)
  from dispatch_returns_normally[OF a b] show ?thesis .
qed

text \<open>
  C2 as stated, that no exception at all leaves \<^verbatim>\<open>dispatch\<close>, fails: the construction of
  the message is outside the \<^verbatim>\<open>try\<close>, so the \<^verbatim>\<open>AssertionError\<close> of a constructor given a
  field it does not know reaches the caller; and so does the \<^verbatim>\<open>KeyboardInterrupt\<close> of a
  listener, which \<^verbatim>\<open>except (Exception, )\<close> does not catch.
\<close>

theorem dispatch_propagates_counterexample:
  "dispatch well_behaved subscribed ''error'' [''bogus'' \<mapsto> PInt 1]
     = (Some AssertionError, subscribed)
   \<and> fst (dispatch first_interrupted subscribed ''error'' [''errorMsg'' \<mapsto> PInt 42])
     = Some KeyboardInterrupt"
proof -
  have "dispatch well_behaved subscribed ''error'' [''bogus'' \<mapsto> PInt 1]
      = (Some AssertionError, subscribed)"
    by (rule dispatch_ctor_raises[where mt = Error_type and ls = "[1, 2, 3]"])
      (simp_all add: subscribed_simps Error_type_simps)
  then show ?thesis by (simp add: dispatch_first_interrupted)
qed

subsection \<open>The error adapter on unrecognised arguments\<close>

text \<open>
  C3. For arguments of none of the three recognised shapes, the error adapter falls back
  to the single-value method with the whole argument tuple as the value: it does what
  \<^verbatim>\<open>dispatch('error', {errorMsg: args})\<close> does and adds no exception of its own, so it
  returns normally wherever that \<^verbatim>\<open>dispatch\<close> does.
\<close>

theorem error_unrecognised_shape:
  assumes "\<not> recognised args"
  shows "error_overloaded run s args = dispatch run s ''error'' [''errorMsg'' \<mapsto> PTuple args]
     \<and> ((\<forall>mt. types s ''error'' = Some mt
              \<longrightarrow> ctor_raises mt [''errorMsg'' \<mapsto> PTuple args] = None)
          \<and> (\<forall>l m e. run l m = Some e \<longrightarrow> isinstance_Exception e)
        \<longrightarrow> fst (error_overloaded run s args) = None)"
proof -
  have eq: "error_overloaded run s args = dispatch run s ''error'' [''errorMsg'' \<mapsto> PTuple args]"
    using assms by (simp add: unrecognised_shape error_def dict_def)
  then show ?thesis by (simp add: dispatch_normal)
qed

theorem error_unrecognised_shape_witness:
  "error_overloaded first_faulty subscribed [PInt 7, PStr ''timeout'']
     = dispatch first_faulty subscribed ''error''
         [''errorMsg'' \<mapsto> PTuple [PInt 7, PStr ''timeout'']]
   \<and> fst (error_overloaded first_faulty subscribed [PInt 7, PStr ''timeout'']) = None
   \<and> error_overloaded first_faulty subscribed []
     = dispatch first_faulty subscribed ''error'' [''errorMsg'' \<mapsto> PTuple []]"
proof -
  have a: "\<not> recognised [PInt 7, PStr ''timeout'']" by simp
  have b: "\<not> recognised []" by simp
  have c: "(\<forall>mt. types subscribed ''error'' = Some mt
              \<longrightarrow> ctor_raises mt [''errorMsg'' \<mapsto> PTuple [PInt 7, PStr ''timeout'']] = None)
          \<and> (\<forall>l m e. first_faulty l m = Some e \<longrightarrow> isinstance_Exception e)"
    by (simp add: subscribed_simps Error_type_simps first_faulty_def)
  from error_unrecognised_shape[OF a, of first_faulty subscribed] c
    error_unrecognised_shape[OF b, of first_faulty subscribed]
  show ?thesis by blast
qed

subsection \<open>Delivery\<close>

text \<open>
  C4. Let the type be known under \<open>name\<close> and let \<open>ls\<close> be its list of listeners,
  free of duplicates as \<^verbatim>\<open>register\<close> keeps it. If the message \<open>m\<close> is constructed from the
  mapping and no listener of the list faults on it, then \<^verbatim>\<open>dispatch\<close> returns normally,
  the invocations it makes are the listeners of \<open>ls\<close> in their order of registration,
  each with \<open>m\<close>, whose fields are the mapping supplied; so each listener receives
  \<open>m\<close> exactly once. Nothing else of the state changes.
\<close>

theorem dispatch_invokes_each_listener_once:
  assumes "types s name = Some mt"
    and "listeners s (key (TypeObj mt)) = Some ls"
    and "distinct ls"
    and "construct mt mp = Inr m"
    and "\<forall>l\<in>set ls. run l m = None"
  shows "dispatch run s name mp = (None, s\<lparr>calls := calls s @ map (\<lambda>l. (l, m)) ls\<rparr>)
     \<and> msg_fields m = mp
     \<and> (\<forall>l\<in>set ls. invocations l (map (\<lambda>l. (l, m)) ls) = [m])"
proof -
  have "dispatch run s name mp = (None, s\<lparr>calls := calls s @ map (\<lambda>l. (l, m)) ls\<rparr>)"
    using assms(1,2,4,5) by (rule dispatch_fan_out_all)
  moreover have "msg_fields m = mp"
    using assms(4) by (simp add: construct_Inr)
  moreover have "\<forall>l\<in>set ls. invocations l (map (\<lambda>l. (l, m)) ls) = [m]"
    using assms(3) by (simp add: invocations_distinct)
  ultimately show ?thesis by blast
qed

theorem dispatch_invokes_each_listener_once_witness:
  "dispatch well_behaved subscribed ''error'' [''errorMsg'' \<mapsto> PInt 42]
     = (None, subscribed\<lparr>calls :=
          [(1, MessageValue ''Error'' [''errorMsg'' \<mapsto> PInt 42]),
           (2, MessageValue ''Error'' [''errorMsg'' \<mapsto> PInt 42]),
           (3, MessageValue ''Error'' [''errorMsg'' \<mapsto> PInt 42])]\<rparr>)
   \<and> invocations 2
        [(1, MessageValue ''Error'' [''errorMsg'' \<mapsto> PInt 42]),
         (2, MessageValue ''Error'' [''errorMsg'' \<mapsto> PInt 42]),
         (3, MessageValue ''Error'' [''errorMsg'' \<mapsto> PInt 42])]
      = [MessageValue ''Error'' [''errorMsg'' \<mapsto> PInt 42]]"
proof -
  let ?m = "MessageValue ''Error'' [''errorMsg'' \<mapsto> PInt 42]"
  have a: "types subscribed ''error'' = Some Error_type" by (simp add: subscribed_simps)
  have b: "listeners subscribed (key (TypeObj Error_type)) = Some [1, 2, 3]"
    by (simp add: subscribed_simps Error_type_simps)
  have c: "distinct [1, 2, 3 :: nat]" by simp
  have d: "construct Error_type [''errorMsg'' \<mapsto> PInt 42] = Inr ?m"
    by (simp add: construct_def Error_type_simps)
  have e: "\<forall>l\<in>set [1, 2, 3]. well_behaved l ?m = None" by (simp add: well_behaved_def)
  from dispatch_invokes_each_listener_once[where run = well_behaved, OF a b c d e]
  show ?thesis by (simp add: subscribed_simps)
qed

subsection \<open>Removal of a faulty listener\<close>

text \<open>
  C5, as amended. Let the type be known under \<open>name\<close>, with a list of listeners free of
  duplicates, as the table keeps it. Every listener that was invoked by this \<^verbatim>\<open>dispatch\<close>
  and raised an exception of the \<^verbatim>\<open>Exception\<close> hierarchy is absent from the list of this
  type afterwards, and the list under every other key is what it was: the faulty listener
  stays registered for the other types.
\<close>

theorem faulty_listener_removed_for_this_type_only:
  assumes "types s name = Some mt"
    and "listeners s (key (TypeObj mt)) = Some ls"
    and "distinct ls"
  shows "(\<forall>l m e. (l, m) \<in> set (new_calls s (snd (dispatch run s name mp)))
              \<and> run l m = Some e \<and> isinstance_Exception e
            \<longrightarrow> (\<exists>ls'. listeners (snd (dispatch run s name mp)) (key (TypeObj mt)) = Some ls'
                    \<and> l \<notin> set ls'))
     \<and> (\<forall>k. k \<noteq> key (TypeObj mt) \<longrightarrow> listeners (snd (dispatch run s name mp)) k = listeners s k)"
proof (cases "ctor_raises mt mp")
  case (Some e)
  with assms(1,2) have "dispatch run s name mp = (Some e, s)" by (rule dispatch_ctor_raises)
  then show ?thesis by (simp add: new_calls_def)
next
  case None
  let ?m = "MessageValue (type_name mt) mp"
  let ?s' = "snd (fan_out run name mt ?m 0 s)"
  have d: "dispatch run s name mp = fan_out run name mt ?m 0 s"
    using assms(1,2) None by (rule dispatch_fan_out)
  have entry: "listeners s (type_name mt) = Some ls" using assms(2) by simp
  from fan_out_faulty_removed[OF entry assms(3), of run name ?m 0]
  obtain ls' cs where h: "listeners ?s' (type_name mt) = Some ls'"
    "calls ?s' = calls s @ cs"
    "\<forall>c\<in>set cs. snd c = ?m \<and> fst c \<in> set ls
       \<and> ((\<exists>e. run (fst c) ?m = Some e \<and> isinstance_Exception e) \<longrightarrow> fst c \<notin> set ls')"
    by blast
  have new: "new_calls s ?s' = cs" using h(2) by (simp add: new_calls_def)
  have "\<forall>l m e. (l, m) \<in> set cs \<and> run l m = Some e \<and> isinstance_Exception e \<longrightarrow> l \<notin> set ls'"
    using h(3) by fastforce
  with h(1) new d have first: "\<forall>l m e. (l, m) \<in> set (new_calls s (snd (dispatch run s name mp)))
              \<and> run l m = Some e \<and> isinstance_Exception e
            \<longrightarrow> (\<exists>ls'. listeners (snd (dispatch run s name mp)) (key (TypeObj mt)) = Some ls'
                    \<and> l \<notin> set ls')"
    by simp
  have "\<forall>k. k \<noteq> key (TypeObj mt) \<longrightarrow> listeners (snd (dispatch run s name mp)) k = listeners s k"
    using d by (simp add: fan_out_other_keys)
  with first show ?thesis by blast
qed

theorem faulty_listener_removed_for_this_type_only_witness:
  "(\<exists>ls'. listeners (snd (dispatch first_faulty subscribed ''error'' [''errorMsg'' \<mapsto> PInt 42]))
            ''Error'' = Some ls' \<and> 1 \<notin> set ls')
   \<and> listeners (snd (dispatch first_faulty subscribed ''error'' [''errorMsg'' \<mapsto> PInt 42]))
        ''TickSize'' = Some [1]"
proof -
  let ?mp = "[''errorMsg'' \<mapsto> PInt 42]"
  let ?m = "MessageValue ''Error'' ?mp"
  let ?s' = "snd (dispatch first_faulty subscribed ''error'' ?mp)"
  have a: "types subscribed ''error'' = Some Error_type" by (simp add: subscribed_simps)
  have b: "listeners subscribed (key (TypeObj Error_type)) = Some [1, 2, 3]"
    by (simp add: subscribed_simps Error_type_simps)
  have c: "distinct [1, 2, 3 :: nat]" by simp
  note t = faulty_listener_removed_for_this_type_only[where run = first_faulty and mp = ?mp,
      OF a b c]
  have called: "(1, ?m) \<in> set (new_calls subscribed ?s')"
    by (simp add: dispatch_first_faulty new_calls_def subscribed_simps)
  have raised: "first_faulty 1 ?m = Some RuntimeError \<and> isinstance_Exception RuntimeError"
    by (simp add: first_faulty_def)
  from t called raised
  have "\<exists>ls'. listeners ?s' (key (TypeObj Error_type)) = Some ls' \<and> 1 \<notin> set ls'"
    by blast
  moreover from t have "listeners ?s' ''TickSize'' = listeners subscribed ''TickSize''"
    by (simp add: Error_type_simps)
  ultimately show ?thesis by (simp add: subscribed_simps Error_type_simps)
qed

text \<open>
  C5 as stated, for whatever a listener raises, fails: \<^verbatim>\<open>except (Exception, )\<close> does not
  catch a \<^verbatim>\<open>KeyboardInterrupt\<close>, so listener 1, invoked and raising it, is still in the
  list of the type after the call.
\<close>

theorem faulty_listener_kept_counterexample:
  "first_interrupted 1 (MessageValue ''Error'' [''errorMsg'' \<mapsto> PInt 42]) = Some KeyboardInterrupt
   \<and> (1, MessageValue ''Error'' [''errorMsg'' \<mapsto> PInt 42])
       \<in> set (new_calls subscribed
            (snd (dispatch first_interrupted subscribed ''error'' [''errorMsg'' \<mapsto> PInt 42])))
   \<and> listeners (snd (dispatch first_interrupted subscribed ''error'' [''errorMsg'' \<mapsto> PInt 42]))
        ''Error'' = Some [1, 2, 3]"
  by (simp add: dispatch_first_interrupted first_interrupted_def new_calls_def subscribed_simps)

subsection \<open>The error adapter on the recognised shapes\<close>

text \<open>
  C6. Each of the three call shapes of \<^verbatim>\<open>error\<close> is one call of \<^verbatim>\<open>dispatch\<close> for
  \<^verbatim>\<open>'error'\<close> with the canonical mapping, and nothing else: \<^verbatim>\<open>error(42)\<close> with
  \<^verbatim>\<open>{errorMsg: 42}\<close>, \<^verbatim>\<open>error("bad feed")\<close> with \<^verbatim>\<open>{errorMsg: "bad feed"}\<close>,
  \<^verbatim>\<open>error(7, 504, "timeout")\<close> with \<^verbatim>\<open>{id: 7, errorCode: 504, errorMsg: "timeout"}\<close>; and
  so for every value, string and triple, by the three method bodies.
\<close>

theorem error_shapes_forward_to_dispatch:
  "error_overloaded run s [PInt 42] = dispatch run s ''error'' [''errorMsg'' \<mapsto> PInt 42]
   \<and> error_overloaded run s [PStr ''bad feed'']
       = dispatch run s ''error'' [''errorMsg'' \<mapsto> PStr ''bad feed'']
   \<and> error_overloaded run s [PInt 7, PInt 504, PStr ''timeout'']
       = dispatch run s ''error''
           [''id'' \<mapsto> PInt 7, ''errorCode'' \<mapsto> PInt 504, ''errorMsg'' \<mapsto> PStr ''timeout'']
   \<and> error run s e = dispatch run s ''error'' [''errorMsg'' \<mapsto> e]
   \<and> error_0 run s strval = dispatch run s ''error'' [''errorMsg'' \<mapsto> PStr strval]
   \<and> error_1 run s ident errorCode errorMsg
       = dispatch run s ''error''
           [''id'' \<mapsto> PInt ident, ''errorCode'' \<mapsto> PInt errorCode, ''errorMsg'' \<mapsto> PStr errorMsg]"
  by (simp add: error_def error_0_def error_1_def dict_def)

subsection \<open>No type, no listeners\<close>

text \<open>
  C7, as amended. With a name the registry does not know, or a known type whose key has
  no entry in the table of listeners, \<^verbatim>\<open>dispatch\<close> invokes nobody, changes nothing and
  returns normally. With a known type whose entry is the empty list it invokes nobody and
  changes nothing either, but the message is constructed first: the call returns normally
  if the constructor accepts the mapping, and what the constructor raises leaves
  \<^verbatim>\<open>dispatch\<close>.
\<close>

theorem dispatch_without_listeners:
  "(types s name = None \<longrightarrow> dispatch run s name mp = (None, s))
   \<and> (\<forall>mt. types s name = Some mt \<and> listeners s (key (TypeObj mt)) = None
         \<longrightarrow> dispatch run s name mp = (None, s))
   \<and> (\<forall>mt. types s name = Some mt \<and> listeners s (key (TypeObj mt)) = Some []
         \<longrightarrow> snd (dispatch run s name mp) = s
             \<and> fst (dispatch run s name mp) = ctor_raises mt mp)"
proof -
  have "snd (dispatch run s name mp) = s \<and> fst (dispatch run s name mp) = ctor_raises mt mp"
    if "types s name = Some mt" "listeners s (key (TypeObj mt)) = Some []" for mt
  proof (cases "ctor_raises mt mp")
    case None
    with that have "dispatch run s name mp
        = fan_out run name mt (MessageValue (type_name mt) mp) 0 s"
      by (intro dispatch_fan_out)
    moreover have "fan_out run name mt (MessageValue (type_name mt) mp) 0 s = (None, s)"
      using that(2) by (intro fan_out_done[where ls = "[]"]) simp_all
    ultimately show ?thesis using None by simp
  next
    case (Some e)
    with that have "dispatch run s name mp = (Some e, s)" by (intro dispatch_ctor_raises)
    with Some show ?thesis by simp
  qed
  then show ?thesis by (simp add: dispatch_unknown dispatch_no_entry)
qed

theorem dispatch_without_listeners_witness:
  "dispatch first_faulty subscribed ''nextValidId'' [''orderId'' \<mapsto> PInt 1] = (None, subscribed)
   \<and> dispatch first_faulty fresh ''error'' [''errorMsg'' \<mapsto> PInt 42] = (None, fresh)
   \<and> dispatch first_faulty emptied ''error'' [''errorMsg'' \<mapsto> PInt 42] = (None, emptied)"
proof -
  have "types subscribed ''nextValidId'' = None"
    by (simp add: subscribed_eq fresh_def)
  with dispatch_without_listeners[of subscribed "''nextValidId''" first_faulty "[''orderId'' \<mapsto> PInt 1]"]
  have one: "dispatch first_faulty subscribed ''nextValidId'' [''orderId'' \<mapsto> PInt 1] = (None, subscribed)"
    by blast
  have "types fresh ''error'' = Some Error_type \<and> listeners fresh (key (TypeObj Error_type)) = None"
    by (simp add: fresh_simps)
  with dispatch_without_listeners[of fresh "''error''" first_faulty "[''errorMsg'' \<mapsto> PInt 42]"]
  have two: "dispatch first_faulty fresh ''error'' [''errorMsg'' \<mapsto> PInt 42] = (None, fresh)"
    by blast
  have "types emptied ''error'' = Some Error_type \<and> listeners emptied (key (TypeObj Error_type)) = Some []"
    by (simp add: emptied_eq fresh_simps Error_type_simps)
  with dispatch_without_listeners[of emptied "''error''" first_faulty "[''errorMsg'' \<mapsto> PInt 42]"]
  have "snd (dispatch first_faulty emptied ''error'' [''errorMsg'' \<mapsto> PInt 42]) = emptied
     \<and> fst (dispatch first_faulty emptied ''error'' [''errorMsg'' \<mapsto> PInt 42])
        = ctor_raises Error_type [''errorMsg'' \<mapsto> PInt 42]"
    by blast
  then have three: "dispatch first_faulty emptied ''error'' [''errorMsg'' \<mapsto> PInt 42] = (None, emptied)"
    by (simp add: Error_type_simps prod_eq_iff)
  from one two three show ?thesis by simp
qed

text \<open>
  C7 as stated fails for a known type without listeners whose list exists: after listener
  3 has been registered for errors and unregistered again, a \<^verbatim>\<open>dispatch\<close> with a field the
  type does not know raises the constructor's \<^verbatim>\<open>AssertionError\<close>.
\<close>

theorem dispatch_empty_list_counterexample:
  "types emptied ''error'' = Some Error_type
   \<and> listeners emptied (key (TypeObj Error_type)) = Some []
   \<and> dispatch well_behaved emptied ''error'' [''bogus'' \<mapsto> PInt 1] = (Some AssertionError, emptied)"
  by (simp add: emptied_eq fresh_simps Error_type_simps dispatch_def construct_def)

subsection \<open>Registration twice\<close>




subsection \<open>key\<close>

text \<open>
  C9. \<^verbatim>\<open>key\<close> is a function of its argument alone, so two calls on the same object give
  equal results; and for a message type whose \<^verbatim>\<open>__name__\<close> is \<open>s\<close>, the type object
  and the string \<open>s\<close> have the same key, which is \<open>s\<close>.
\<close>

theorem key_type_and_name:
  "key (TypeObj mt) = key (StrObj (type_name mt)) \<and> key (TypeObj mt) = type_name mt"
  by simp

subsection \<open>The methods made by messageMethod\<close>

text \<open>
  C10. A method made by \<^verbatim>\<open>messageMethod(name, argnames)\<close> is \<^verbatim>\<open>dispatch\<close> of \<open>name\<close>
  with the mapping that pairs the names with the arguments, and raises nothing of its
  own for any number of arguments. The mapping has the first \<open>length args\<close> names as its
  keys, and arguments beyond the names change nothing. When the names are distinct, the
  name at a position that has an argument maps to that argument, and a name at a position
  beyond the arguments is absent.
\<close>

theorem messageMethod_zips_and_forwards:
  "messageMethod name argnames run s args = dispatch run s name (dict (zip argnames args))
   \<and> dom (dict (zip argnames args)) = set (take (length args) argnames)
   \<and> dict (zip argnames args) = dict (zip argnames (take (length argnames) args))
   \<and> (distinct argnames \<longrightarrow>
        (\<forall>i. i < length argnames \<and> i < length args
           \<longrightarrow> dict (zip argnames args) (argnames ! i) = Some (args ! i))
        \<and> (\<forall>i. length args \<le> i \<and> i < length argnames
           \<longrightarrow> dict (zip argnames args) (argnames ! i) = None))"
proof (intro conjI impI allI)
  show "messageMethod name argnames run s args = dispatch run s name (dict (zip argnames args))"
    by (simp add: messageMethod_def)
  show "dom (dict (zip argnames args)) = set (take (length args) argnames)"
    by (rule dom_dict_zip)
  show "dict (zip argnames args) = dict (zip argnames (take (length argnames) args))"
    by (rule dict_zip_take)
next
  fix i
  assume "distinct argnames" and "i < length argnames \<and> i < length args"
  then show "dict (zip argnames args) (argnames ! i) = Some (args ! i)"
    by (simp add: dict_zip_nth)
next
  fix i
  assume "distinct argnames" and "length args \<le> i \<and> i < length argnames"
  then show "dict (zip argnames args) (argnames ! i) = None"
    by (simp add: dict_zip_absent)
qed

theorem messageMethod_zips_and_forwards_witness:
  "messageMethod ''tickSize'' [''tickerId'', ''field'', ''size''] well_behaved subscribed [PInt 1, PInt 0]
     = dispatch well_behaved subscribed ''tickSize'' [''tickerId'' \<mapsto> PInt 1, ''field'' \<mapsto> PInt 0]
   \<and> dict (zip [''tickerId'', ''field'', ''size''] [PInt 1, PInt 0]) ''size'' = None
   \<and> dict (zip [''tickerId'', ''field'', ''size''] [PInt 1, PInt 0, PInt 5, PInt 9])
     = dict (zip [''tickerId'', ''field'', ''size''] [PInt 1, PInt 0, PInt 5])
   \<and> dict (zip [''tickerId'', ''field'', ''size''] [PInt 1, PInt 0, PInt 5, PInt 9]) ''size''
     = Some (PInt 5)"
proof -
  let ?names = "[''tickerId'', ''field'', ''size'']"
  let ?short = "[PInt 1, PInt 0]"
  let ?long = "[PInt 1, PInt 0, PInt 5, PInt 9]"
  have d: "distinct ?names" by simp
  note short = messageMethod_zips_and_forwards[of "''tickSize''" ?names well_behaved subscribed ?short]
  note long = messageMethod_zips_and_forwards[of "''tickSize''" ?names well_behaved subscribed ?long]
  have "messageMethod ''tickSize'' ?names well_behaved subscribed ?short
     = dispatch well_behaved subscribed ''tickSize'' (dict (zip ?names ?short))"
    by (rule short[THEN conjunct1])
  then have one: "messageMethod ''tickSize'' ?names well_behaved subscribed ?short
     = dispatch well_behaved subscribed ''tickSize'' [''tickerId'' \<mapsto> PInt 1, ''field'' \<mapsto> PInt 0]"
    by (simp add: dict_def)
  note rest = short[THEN conjunct2, THEN conjunct2, THEN conjunct2, THEN mp, OF d]
  have "length ?short \<le> Suc (Suc 0) \<and> Suc (Suc 0) < length ?names" by simp
  with rest[THEN conjunct2, THEN spec, of "Suc (Suc 0)"]
  have "dict (zip ?names ?short) (?names ! Suc (Suc 0)) = None" by (rule mp)
  then have two: "dict (zip ?names ?short) ''size'' = None" by simp
  have "dict (zip ?names ?long) = dict (zip ?names (take (length ?names) ?long))"
    by (rule long[THEN conjunct2, THEN conjunct2, THEN conjunct1])
  then have three: "dict (zip ?names ?long) = dict (zip ?names [PInt 1, PInt 0, PInt 5])"
    by simp
  note rest' = long[THEN conjunct2, THEN conjunct2, THEN conjunct2, THEN mp, OF d]
  have "Suc (Suc 0) < length ?names \<and> Suc (Suc 0) < length ?long" by simp
  with rest'[THEN conjunct1, THEN spec, of "Suc (Suc 0)"]
  have "dict (zip ?names ?long) (?names ! Suc (Suc 0)) = Some (?long ! Suc (Suc 0))" by (rule mp)
  then have four: "dict (zip ?names ?long) ''size'' = Some (PInt 5)" by simp
  from one two three four show ?thesis by (intro conjI)
qed

end
